theory Spec2Isabelle
  imports Complex_Main
begin

section \<open>Python values used by the handler\<close>

text \<open>
  A Python \<open>str\<close> is a sequence of Unicode code points; \<open>len\<close>, slicing, \<open>strip\<close> and
  \<open>split\<close> all count code points. A string is therefore a list of code points, each a
  natural number. \<open>u\<close> writes an ASCII literal of the source as such a list.
\<close>

type_synonym pystr = "nat list"

definition u :: "string \<Rightarrow> pystr" where
  "u s = map of_char s"

text \<open>
  The value of \<open>request.get_json()\<close>: what Python's JSON decoder produces. A dict is an
  association list in insertion order (its keys are distinct), a float is kept as a
  mantissa and an exponent; the handler never looks inside a number.
\<close>

datatype json =
    JNull
  | JBool bool
  | JInt int
  | JFloat int int
  | JStr pystr
  | JList "json list"
  | JObj "(pystr \<times> json) list"

text \<open>
  Exceptions carry the text that \<open>str(e)\<close> gives. \<open>except Exception\<close> catches the
  instances of \<open>Exception\<close> only: \<open>KeyboardInterrupt\<close>, \<open>SystemExit\<close> and
  \<open>GeneratorExit\<close> derive from \<open>BaseException\<close> directly and pass through it.
\<close>

datatype pyexn =
    AttributeError pystr
  | OtherException pystr
  | NonException pystr

fun is_Exception :: "pyexn \<Rightarrow> bool" where
  "is_Exception (AttributeError _) = True"
| "is_Exception (OtherException _) = True"
| "is_Exception (NonException _) = False"

fun str_exn :: "pyexn \<Rightarrow> pystr" where
  "str_exn (AttributeError msg) = msg"
| "str_exn (OtherException msg) = msg"
| "str_exn (NonException msg) = msg"

fun type_name :: "json \<Rightarrow> string" where
  "type_name JNull = ''NoneType''"
| "type_name (JBool _) = ''bool''"
| "type_name (JInt _) = ''int''"
| "type_name (JFloat _ _) = ''float''"
| "type_name (JStr _) = ''str''"
| "type_name (JList _) = ''list''"
| "type_name (JObj _) = ''dict''"

text \<open>The message of the \<open>AttributeError\<close> raised by \<open>v.attr\<close>; 39 is the apostrophe.\<close>

definition no_attribute :: "json \<Rightarrow> string \<Rightarrow> pyexn" where
  "no_attribute v attr =
     AttributeError ([39] @ u (type_name v) @ [39] @ u '' object has no attribute '' @
                     [39] @ u attr @ [39])"

text \<open>\<open>data.get(key, default)\<close>: only a dict has the method.\<close>

fun dict_get :: "json \<Rightarrow> pystr \<Rightarrow> json \<Rightarrow> pyexn + json" where
  "dict_get (JObj kvs) key dflt = Inr (case map_of kvs key of None \<Rightarrow> dflt | Some v \<Rightarrow> v)"
| "dict_get v key dflt = Inl (no_attribute v ''get'')"

section \<open>String operations\<close>

text \<open>
  The code points for which \<open>str.isspace\<close> holds: the white space that \<open>strip()\<close> and
  \<open>split()\<close> without arguments remove.
\<close>

definition isspace :: "nat \<Rightarrow> bool" where
  "isspace c \<longleftrightarrow>
     (9 \<le> c \<and> c \<le> 13) \<or> (28 \<le> c \<and> c \<le> 32) \<or> c = 133 \<or> c = 160 \<or> c = 5760 \<or>
     (8192 \<le> c \<and> c \<le> 8202) \<or> c = 8232 \<or> c = 8233 \<or> c = 8239 \<or> c = 8287 \<or> c = 12288"

text \<open>\<open>s.strip()\<close>\<close>

definition strip :: "pystr \<Rightarrow> pystr" where
  "strip s = rev (dropWhile isspace (rev (dropWhile isspace s)))"

text \<open>
  \<open>s.split()\<close>: the maximal runs of non-space code points, scanned left to right; \<open>cur\<close>
  is the word being read.
\<close>

fun split_ws_from :: "pystr \<Rightarrow> pystr \<Rightarrow> pystr list" where
  "split_ws_from cur [] = (if cur = [] then [] else [cur])"
| "split_ws_from cur (c # cs) =
     (if isspace c then (if cur = [] then split_ws_from [] cs else cur # split_ws_from [] cs)
      else split_ws_from (cur @ [c]) cs)"

definition split_ws :: "pystr \<Rightarrow> pystr list" where
  "split_ws s = split_ws_from [] s"

text \<open>\<open>s.split(sep)\<close> for a separator of one code point: empty segments are kept.\<close>

fun split_sep_from :: "nat \<Rightarrow> pystr \<Rightarrow> pystr \<Rightarrow> pystr list" where
  "split_sep_from sep cur [] = [cur]"
| "split_sep_from sep cur (c # cs) =
     (if c = sep then cur # split_sep_from sep [] cs else split_sep_from sep (cur @ [c]) cs)"

definition split_sep :: "pystr \<Rightarrow> nat \<Rightarrow> pystr list" where
  "split_sep s sep = split_sep_from sep [] s"

text \<open>\<open>sep.join(xs)\<close>\<close>

fun join :: "pystr \<Rightarrow> pystr list \<Rightarrow> pystr" where
  "join sep [] = []"
| "join sep [x] = x"
| "join sep (x # y # ys) = x @ sep @ join sep (y # ys)"

text \<open>\<open>s[i:j]\<close> for \<open>0 \<le> i \<le> j\<close>: the bounds are clipped to the length.\<close>

definition slice :: "pystr \<Rightarrow> nat \<Rightarrow> nat \<Rightarrow> pystr" where
  "slice s i j = take (j - i) (drop i s)"

text \<open>
  \<open>range(start, stop, step)\<close> for a positive step. Python raises \<open>ValueError\<close> for a
  zero step; the handler's step is the literal 1000.
\<close>

function py_range :: "nat \<Rightarrow> nat \<Rightarrow> nat \<Rightarrow> nat list" where
  "py_range start stop step =
     (if step = 0 then []
      else if start < stop then start # py_range (start + step) stop step
      else [])"
  by pat_completeness auto
termination
  by (relation "measure (\<lambda>(start, stop, step). stop - start)") auto

declare py_range.simps [simp del]

section \<open>The summarization capability\<close>

text \<open>
  The pipeline object \<open>summarizer\<close> is created by the \<open>transformers\<close> library and is not
  part of the repository. The expression
  \<open>summarizer(chunk, max_length=130, min_length=30, do_sample=False)[0]['summary_text']\<close>
  is a parameter of the model: given the state \<open>'m\<close> of the capability, the chunk and the
  three keyword arguments, it yields the summary text or raises, and leaves a new state.
\<close>

type_synonym 'm summarizer =
  "'m \<Rightarrow> pystr \<Rightarrow> nat \<Rightarrow> nat \<Rightarrow> bool \<Rightarrow> (pyexn + pystr) \<times> 'm"

text \<open>
  The list comprehension over the chunks: one call per chunk, in list order; the first
  call that raises ends the comprehension.
\<close>

fun summarize_all :: "'m summarizer \<Rightarrow> 'm \<Rightarrow> pystr list \<Rightarrow> (pyexn + pystr list) \<times> 'm" where
  "summarize_all summarizer m [] = (Inr [], m)"
| "summarize_all summarizer m (chunk # chunks) =
     (case summarizer m chunk 130 30 False of
        (Inl e, m') \<Rightarrow> (Inl e, m')
      | (Inr summary_text, m') \<Rightarrow>
          (case summarize_all summarizer m' chunks of
             (Inl e, m'') \<Rightarrow> (Inl e, m'')
           | (Inr summaries, m'') \<Rightarrow> (Inr (summary_text # summaries), m'')))"

section \<open>The handler\<close>

record response =
  status :: nat
  body :: json

text \<open>\<open>jsonify(d)\<close> alone answers with status 200; \<open>jsonify(d), n\<close> with status \<open>n\<close>.\<close>

definition jsonify :: "(pystr \<times> json) list \<Rightarrow> nat \<Rightarrow> response" where
  "jsonify d code = \<lparr>status = code, body = JObj d\<rparr>"

definition chunks_of :: "pystr \<Rightarrow> pystr list" where
  "chunks_of content = map (\<lambda>i. slice content i (i + 1000)) (py_range 0 (length content) 1000)"

text \<open>The body of the \<open>try\<close> statement with its \<open>except Exception\<close> clause.\<close>

definition try_block :: "'m summarizer \<Rightarrow> 'm \<Rightarrow> pystr \<Rightarrow> (pyexn + response) \<times> 'm" where
  "try_block summarizer m content =
     (let chunks = chunks_of content
      in case summarize_all summarizer m chunks of
           (Inl e, m') \<Rightarrow>
             (if is_Exception e
              then (Inr (jsonify [(u ''error'', JStr (str_exn e))] 500), m')
              else (Inl e, m'))
         | (Inr summaries, m') \<Rightarrow>
             (let full_summary = join (u '' '') summaries
              in (Inr (jsonify
                    [(u ''summary'', JStr full_summary),
                     (u ''word_count'', JInt (int (length (split_ws content)))),
                     (u ''line_count'', JInt (int (length (split_sep content 10))))] 200), m')))"

text \<open>
  \<open>analyze\<close>: \<open>Inr\<close> is the response the view returns, \<open>Inl\<close> an exception that leaves
  the view. The second component is the state of the summarization capability.
  \<open>content.strip()\<close> is evaluated before the \<open>try\<close> statement is entered, and only a
  \<open>str\<close> has the method.
\<close>

definition analyze :: "'m summarizer \<Rightarrow> 'm \<Rightarrow> json \<Rightarrow> (pyexn + response) \<times> 'm" where
  "analyze summarizer m data =
     (case dict_get data (u ''content'') (JStr []) of
        Inl e \<Rightarrow> (Inl e, m)
      | Inr content \<Rightarrow>
          (case content of
             JStr s \<Rightarrow>
               if strip s = [] then (Inr (jsonify [(u ''error'', JStr (u ''Empty content''))] 400), m)
               else try_block summarizer m s
           | _ \<Rightarrow> (Inl (no_attribute content ''strip''), m)))"

section \<open>Notions used to state the properties\<close>

text \<open>The JSON body \<open>{"content": s}\<close>.\<close>

definition request :: "pystr \<Rightarrow> json" where
  "request s = JObj [(u ''content'', JStr s)]"

text \<open>The value of a field of the response body.\<close>

definition field :: "response \<Rightarrow> pystr \<Rightarrow> json option" where
  "field r k = (case body r of JObj kvs \<Rightarrow> map_of kvs k | _ \<Rightarrow> None)"

text \<open>
  A summarizer that also keeps the list of its invocations, oldest first: the chunk it
  was given and what the call produced. The handler cannot tell it from the summarizer it
  wraps, so the list shows which calls a request made and in which order.
\<close>

type_synonym invocation = "pystr \<times> (pyexn + pystr)"

definition recording :: "'m summarizer \<Rightarrow> ('m \<times> invocation list) summarizer" where
  "recording summarizer = (\<lambda>(m, calls) chunk max_length min_length do_sample.
     case summarizer m chunk max_length min_length do_sample of
       (res, m') \<Rightarrow> (res, (m', calls @ [(chunk, res)])))"

text \<open>The invocations that the comprehension over \<open>chunks\<close> makes, started in state \<open>m\<close>.\<close>

fun invocations :: "'m summarizer \<Rightarrow> 'm \<Rightarrow> pystr list \<Rightarrow> invocation list" where
  "invocations summarizer m [] = []"
| "invocations summarizer m (chunk # chunks) =
     (case summarizer m chunk 130 30 False of
        (Inl e, m') \<Rightarrow> [(chunk, Inl e)]
      | (Inr t, m') \<Rightarrow> (chunk, Inr t) # invocations summarizer m' chunks)"

text \<open>
  A deterministic capability: what a call produces depends on its arguments only, not on
  the state the capability is in.
\<close>

definition deterministic :: "'m summarizer \<Rightarrow> bool" where
  "deterministic summarizer \<longleftrightarrow>
     (\<forall>m m' chunk mx mn smp. fst (summarizer m chunk mx mn smp) = fst (summarizer m' chunk mx mn smp))"

text \<open>
  The number of maximal runs of non-space code points of \<open>s\<close>, counted by the positions
  where such a run starts: a non-space code point that is the first of \<open>s\<close> or follows
  white space.
\<close>

definition token_count :: "pystr \<Rightarrow> nat" where
  "token_count s =
     length (filter (\<lambda>i. \<not> isspace (s ! i) \<and> (i = 0 \<or> isspace (s ! (i - 1)))) [0..<length s])"

text \<open>
  The same count for a suffix \<open>s\<close> of a string: \<open>b\<close> tells whether a run may start at the
  first position of \<open>s\<close>, that is, whether white space or nothing precedes it.
\<close>

definition run_starts :: "bool \<Rightarrow> pystr \<Rightarrow> nat" where
  "run_starts b s =
     length (filter (\<lambda>i. \<not> isspace (s ! i) \<and> (if i = 0 then b else isspace (s ! (i - 1))))
               [0..<length s])"

text \<open>
  Summarizers for the concrete cases. All three count their calls in their state:
  \<open>echo\<close> returns the first three code points of the chunk, \<open>failing\<close> raises, \<open>silent\<close>
  returns the empty text.
\<close>

definition echo :: "nat summarizer" where
  "echo m chunk max_length min_length do_sample = (Inr (take 3 chunk), Suc m)"

definition failing :: "nat summarizer" where
  "failing m chunk max_length min_length do_sample = (Inl (OtherException (u ''out of memory'')), Suc m)"

definition silent :: "nat summarizer" where
  "silent m chunk max_length min_length do_sample = (Inr [], Suc m)"

section \<open>Chunking\<close>

lemma py_range_conv:
  "0 < step \<Longrightarrow>
   py_range start stop step = map (\<lambda>j. start + j * step) [0..<(stop - start + (step - 1)) div step]"
proof (induction start stop step rule: py_range.induct)
  case (1 start stop step)
  show ?case
  proof (cases "start < stop")
    case False
    then have "(stop - start + (step - 1)) div step = 0" using 1(2) by simp
    with False 1(2) show ?thesis by (simp add: py_range.simps)
  next
    case True
    define n where "n = (stop - (start + step) + (step - 1)) div step"
    have "stop - start + (step - 1) = (stop - (start + step) + (step - 1)) + step \<or>
          (stop - (start + step) = 0 \<and> step \<le> stop - start + (step - 1) \<and> stop - start + (step - 1) < 2 * step)"
      using True 1(2) by arith
    then have d: "(stop - start + (step - 1)) div step = Suc n"
    proof
      assume a: "stop - start + (step - 1) = (stop - (start + step) + (step - 1)) + step"
      have "(stop - (start + step) + (step - 1) + step) div step =
            (stop - (start + step) + (step - 1)) div step + 1"
        using 1(2) by (intro div_add_self2) simp
      then show ?thesis unfolding n_def by (simp only: a Suc_eq_plus1)
    next
      assume a: "stop - (start + step) = 0 \<and> step \<le> stop - start + (step - 1) \<and> stop - start + (step - 1) < 2 * step"
      then have "n = 0" unfolding n_def using 1(2) by simp
      moreover have "(stop - start + (step - 1)) div step = 1"
        using a 1(2) by (metis div_nat_eqI mult.commute mult_2 nat_mult_1_right plus_1_eq_Suc mult_Suc_right)
      ultimately show ?thesis by simp
    qed
    have ih: "py_range (start + step) stop step = map (\<lambda>j. start + step + j * step) [0..<n]"
      using 1(1)[OF _ True 1(2)] 1(2) unfolding n_def by simp
    have "py_range start stop step = start # py_range (start + step) stop step"
      using True 1(2) by (subst py_range.simps) simp
    also have "\<dots> = start # map (\<lambda>j. start + step + j * step) [0..<n]" by (simp only: ih)
    also have "\<dots> = map (\<lambda>j. start + j * step) [0..<Suc n]"
      by (simp only: upt_conv_Cons[of 0 "Suc n"] map_Suc_upt[symmetric]) (simp add: comp_def add.assoc)
    finally show ?thesis by (simp only: d)
  qed
qed

lemma chunks_of_conv:
  "chunks_of c = map (\<lambda>k. take 1000 (drop (1000 * k) c)) [0..<(length c + 999) div 1000]"
  by (simp add: chunks_of_def py_range_conv slice_def comp_def mult.commute)

lemma concat_blocks:
  "concat (map (\<lambda>k. take n (drop (n * k) c)) [0..<m]) = take (n * m) c"
proof (induction m)
  case 0 then show ?case by simp
next
  case (Suc m)
  have "take (n * m) c @ take n (drop (n * m) c) = take (n * m + n) c"
    by (simp add: take_add)
  with Suc show ?case by (simp add: add.commute)
qed

lemma concat_chunks_of: "concat (chunks_of c) = c"
proof -
  have "length c \<le> 1000 * ((length c + 999) div 1000)" by arith
  then show ?thesis by (simp add: chunks_of_conv concat_blocks)
qed

lemma length_chunks_of: "length (chunks_of c) = (length c + 999) div 1000"
  by (simp add: chunks_of_conv)

lemma ceiling_1000: "int ((n + 999) div 1000) = \<lceil>real n / 1000\<rceil>"
proof -
  have "\<lceil>real n / 1000\<rceil> = \<lceil>of_int (int n) / (of_int 1000 :: real)\<rceil>" by simp
  also have "\<dots> = - (- int n div 1000)" by (rule ceiling_divide_eq_div)
  also have "\<dots> = int ((n + 999) div 1000)" by (simp add: zdiv_int)
  finally show ?thesis by simp
qed

lemma nth_chunks_of:
  assumes "k < length (chunks_of c)"
  shows "chunks_of c ! k = map ((!) c) [1000 * k..<min (1000 * k + 1000) (length c)]"
proof -
  have k: "k < (length c + 999) div 1000" using assms by (simp add: length_chunks_of)
  have kl: "1000 * k < length c" using k by arith
  have "chunks_of c ! k = take 1000 (drop (1000 * k) c)"
    using k by (simp add: chunks_of_conv)
  also have "\<dots> = map ((!) c) [1000 * k..<min (1000 * k + 1000) (length c)]"
  proof (rule nth_equalityI)
    show "length (take 1000 (drop (1000 * k) c)) =
          length (map ((!) c) [1000 * k..<min (1000 * k + 1000) (length c)])"
      using kl by (simp add: min_def) arith
  next
    fix i
    assume "i < length (take 1000 (drop (1000 * k) c))"
    then have i: "i < 1000" "1000 * k + i < length c" by auto
    then have "1000 * k + i < min (1000 * k + 1000) (length c)" by simp
    then show "take 1000 (drop (1000 * k) c) ! i =
               map ((!) c) [1000 * k..<min (1000 * k + 1000) (length c)] ! i"
      using i kl by simp
  qed
  finally show ?thesis .
qed

section \<open>Stripping and splitting\<close>

lemma strip_empty_iff: "strip s = [] \<longleftrightarrow> (\<forall>c\<in>set s. isspace c)"
proof
  assume "strip s = []"
  then have a: "\<forall>x\<in>set (dropWhile isspace s). isspace x"
    by (simp add: strip_def)
  have "dropWhile isspace s = []"
  proof (rule ccontr)
    assume n: "dropWhile isspace s \<noteq> []"
    then have "\<not> isspace (hd (dropWhile isspace s))" by (rule hd_dropWhile)
    moreover have "hd (dropWhile isspace s) \<in> set (dropWhile isspace s)" using n by simp
    ultimately show False using a by blast
  qed
  then show "\<forall>c\<in>set s. isspace c" by simp
next
  assume "\<forall>c\<in>set s. isspace c"
  then have d: "dropWhile isspace s = []" by (induction s) auto
  show "strip s = []" unfolding strip_def d by simp
qed

lemma run_starts_Nil: "run_starts b [] = 0"
  by (simp add: run_starts_def)

lemma run_starts_Cons:
  "run_starts b (c # cs) = (if \<not> isspace c \<and> b then 1 else 0) + run_starts (isspace c) cs"
proof -
  let ?P = "\<lambda>i. \<not> isspace ((c # cs) ! i) \<and> (if i = 0 then b else isspace ((c # cs) ! (i - 1)))"
  let ?Q = "\<lambda>i. \<not> isspace (cs ! i) \<and> (if i = 0 then isspace c else isspace (cs ! (i - 1)))"
  have up: "[0..<length (c # cs)] = 0 # map Suc [0..<length cs]"
    by (simp add: upt_conv_Cons map_Suc_upt del: upt_Suc)
  have pq: "?P \<circ> Suc = ?Q"
    by (rule ext) (auto simp: nth_Cons split: nat.splits)
  have "filter ?P [0..<length (c # cs)] =
        (if ?P 0 then [0] else []) @ map Suc (filter (?P \<circ> Suc) [0..<length cs])"
    unfolding up by (simp only: filter.simps filter_map) simp
  then have "length (filter ?P [0..<length (c # cs)]) =
             (if ?P 0 then 1 else 0) + length (filter ?Q [0..<length cs])"
    unfolding pq by simp
  then show ?thesis unfolding run_starts_def by simp
qed

lemma length_split_ws_from:
  "length (split_ws_from cur s) =
     (if cur = [] then run_starts True s else Suc (run_starts False s))"
  by (induction s arbitrary: cur) (simp_all add: run_starts_Nil run_starts_Cons)

lemma token_count_run_starts: "token_count s = run_starts True s"
proof -
  have "(\<lambda>i. \<not> isspace (s ! i) \<and> (i = 0 \<or> isspace (s ! (i - 1)))) =
        (\<lambda>i. \<not> isspace (s ! i) \<and> (if i = 0 then True else isspace (s ! (i - 1))))"
    by (rule ext) simp
  then show ?thesis unfolding token_count_def run_starts_def by (simp only:)
qed

lemma length_split_ws: "length (split_ws s) = token_count s"
  by (simp add: split_ws_def length_split_ws_from token_count_run_starts)

lemma split_ws_from_nonempty:
  "cur \<noteq> [] \<or> (\<exists>c\<in>set s. \<not> isspace c) \<Longrightarrow> split_ws_from cur s \<noteq> []"
  by (induction s arbitrary: cur) auto

lemma split_ws_nonempty: "strip s \<noteq> [] \<Longrightarrow> split_ws s \<noteq> []"
  by (simp add: split_ws_def split_ws_from_nonempty strip_empty_iff)

lemma length_split_sep_from: "length (split_sep_from sep cur s) = Suc (count_list s sep)"
  by (induction s arbitrary: cur) auto

lemma split_sep_from_absent: "sep \<notin> set s \<Longrightarrow> split_sep_from sep cur s = [cur @ s]"
  by (induction s arbitrary: cur) auto

lemma split_sep_from_trailing:
  "split_sep_from sep cur (s @ [sep]) = split_sep_from sep cur s @ [[]]"
  by (induction s arbitrary: cur) auto

section \<open>The summarizer calls of a request\<close>

lemma summarize_all_length:
  "summarize_all s m cs = (Inr ss, m') \<Longrightarrow> length ss = length cs"
  by (induction cs arbitrary: m ss) (auto split: prod.splits sum.splits)

lemma invocations_ok:
  "summarize_all s m cs = (Inr ss, m') \<Longrightarrow> invocations s m cs = zip cs (map Inr ss)"
  by (induction cs arbitrary: m ss) (auto split: prod.splits sum.splits)

lemma invocations_raise:
  "summarize_all s m cs = (Inl e, m') \<Longrightarrow>
   \<exists>k ss. k < length cs \<and> length ss = k \<and>
          invocations s m cs = zip (take k cs) (map Inr ss) @ [(cs ! k, Inl e)]"
proof (induction cs arbitrary: m)
  case Nil
  then show ?case by simp
next
  case (Cons c cs)
  obtain r m1 where c1: "s m c 130 30 False = (r, m1)" by (cases "s m c 130 30 False")
  show ?case
  proof (cases r)
    case (Inl e1)
    with c1 Cons.prems have "e1 = e" by simp
    with c1 Inl have "invocations s m (c # cs) = zip (take 0 (c # cs)) (map Inr []) @ [((c # cs) ! 0, Inl e)]"
      by simp
    then show ?thesis by blast
  next
    case (Inr t)
    with c1 Cons.prems have "summarize_all s m1 cs = (Inl e, m')"
      by (auto split: prod.splits sum.splits)
    from Cons.IH [OF this] obtain k ss where
      k: "k < length cs" "length ss = k"
         "invocations s m1 cs = zip (take k cs) (map Inr ss) @ [(cs ! k, Inl e)]"
      by blast
    then have "Suc k < length (c # cs) \<and> length (t # ss) = Suc k \<and>
               invocations s m (c # cs) =
                 zip (take (Suc k) (c # cs)) (map Inr (t # ss)) @ [((c # cs) ! Suc k, Inl e)]"
      using c1 Inr by simp
    then show ?thesis by blast
  qed
qed

lemma summarize_all_recording:
  "summarize_all (recording s) (m, calls) cs =
     (fst (summarize_all s m cs), (snd (summarize_all s m cs), calls @ invocations s m cs))"
proof (induction cs arbitrary: m calls)
  case Nil
  then show ?case by simp
next
  case (Cons c cs)
  obtain r m1 where c1: "s m c 130 30 False = (r, m1)" by (cases "s m c 130 30 False")
  then have rc: "recording s (m, calls) c 130 30 False = (r, (m1, calls @ [(c, r)]))"
    by (simp add: recording_def)
  show ?case
  proof (cases r)
    case (Inl e)
    with c1 rc show ?thesis by simp
  next
    case (Inr t)
    with c1 rc Cons.IH [of m1 "calls @ [(c, r)]"] show ?thesis
      by (simp split: prod.splits sum.splits)
  qed
qed

lemma try_block_recording:
  "try_block (recording s) (m, calls) c =
     (fst (try_block s m c), (snd (try_block s m c), calls @ invocations s m (chunks_of c)))"
  by (simp add: try_block_def summarize_all_recording Let_def split: prod.splits sum.splits)

section \<open>The handler, case by case\<close>

lemma analyze_dict:
  "analyze s m (JObj kvs) =
     (case map_of kvs (u ''content'') of
        None \<Rightarrow> (Inr (jsonify [(u ''error'', JStr (u ''Empty content''))] 400), m)
      | Some (JStr c) \<Rightarrow>
          if strip c = [] then (Inr (jsonify [(u ''error'', JStr (u ''Empty content''))] 400), m)
          else try_block s m c
      | Some v \<Rightarrow> (Inl (no_attribute v ''strip''), m))"
  by (simp add: analyze_def strip_def split: option.splits json.splits)

lemma analyze_not_dict:
  "\<forall>kvs. data \<noteq> JObj kvs \<Longrightarrow> analyze s m data = (Inl (no_attribute data ''get''), m)"
  by (cases data) (simp_all add: analyze_def)

lemma status_jsonify: "status (jsonify d n) = n"
  by (simp add: jsonify_def)

lemma try_block_cases:
  "try_block s m c =
     (case summarize_all s m (chunks_of c) of
        (Inl e, m') \<Rightarrow>
          (if is_Exception e then (Inr (jsonify [(u ''error'', JStr (str_exn e))] 500), m')
           else (Inl e, m'))
      | (Inr ss, m') \<Rightarrow>
          (Inr (jsonify [(u ''summary'', JStr (join (u '' '') ss)),
                         (u ''word_count'', JInt (int (length (split_ws c)))),
                         (u ''line_count'', JInt (int (length (split_sep c 10))))] 200), m'))"
  by (simp add: try_block_def Let_def split: prod.splits sum.splits)

lemma try_block_200:
  assumes "try_block s m c = (Inr r, m')" and "status r = 200"
  shows "\<exists>ss. summarize_all s m (chunks_of c) = (Inr ss, m') \<and>
              r = jsonify [(u ''summary'', JStr (join (u '' '') ss)),
                           (u ''word_count'', JInt (int (length (split_ws c)))),
                           (u ''line_count'', JInt (int (length (split_sep c 10))))] 200"
proof -
  obtain x m1 where sa: "summarize_all s m (chunks_of c) = (x, m1)"
    by (cases "summarize_all s m (chunks_of c)")
  show ?thesis
  proof (cases x)
    case (Inl e)
    with sa assms show ?thesis
      by (auto simp: try_block_cases status_jsonify split: if_splits)
  next
    case (Inr ss)
    with sa assms show ?thesis by (auto simp: try_block_cases)
  qed
qed

lemma analyze_200:
  assumes "analyze s m data = (Inr r, m')" and "status r = 200"
  shows "\<exists>kvs c ss. data = JObj kvs \<and> map_of kvs (u ''content'') = Some (JStr c) \<and>
           strip c \<noteq> [] \<and> summarize_all s m (chunks_of c) = (Inr ss, m') \<and>
           r = jsonify [(u ''summary'', JStr (join (u '' '') ss)),
                        (u ''word_count'', JInt (int (length (split_ws c)))),
                        (u ''line_count'', JInt (int (length (split_sep c 10))))] 200"
proof (cases "\<exists>kvs. data = JObj kvs")
  case False
  then have "analyze s m data = (Inl (no_attribute data ''get''), m)"
    by (intro analyze_not_dict) simp
  with assms show ?thesis by simp
next
  case True
  then obtain kvs where d: "data = JObj kvs" by blast
  show ?thesis
  proof (cases "map_of kvs (u ''content'')")
    case None
    with assms d show ?thesis by (auto simp: analyze_dict status_jsonify)
  next
    case (Some v)
    show ?thesis
    proof (cases v)
      case (JStr c)
      show ?thesis
      proof (cases "strip c = []")
        case True
        with assms d Some JStr show ?thesis by (auto simp: analyze_dict status_jsonify)
      next
        case False
        with assms d Some JStr have "try_block s m c = (Inr r, m')"
          by (simp add: analyze_dict)
        from try_block_200 [OF this assms(2)] d Some JStr False show ?thesis by blast
      qed
    qed (use assms d Some in \<open>simp_all add: analyze_dict\<close>)
  qed
qed

lemma map_of_fields:
  "u ''summary'' \<noteq> u ''word_count''" "u ''summary'' \<noteq> u ''line_count''"
  "u ''word_count'' \<noteq> u ''line_count''" "u ''word_count'' \<noteq> u ''summary''"
  "u ''line_count'' \<noteq> u ''summary''" "u ''line_count'' \<noteq> u ''word_count''"
  "u ''error'' \<noteq> u ''summary''"
  by (simp_all add: u_def)

lemma field_jsonify: "field (jsonify d n) k = map_of d k"
  by (simp add: field_def jsonify_def)

lemma fst_summarize_all_Cons:
  "s m c 130 30 False = (Inr t, m1) \<Longrightarrow>
   fst (summarize_all s m (c # cs)) =
     (case fst (summarize_all s m1 cs) of Inl e \<Rightarrow> Inl e | Inr ss \<Rightarrow> Inr (t # ss))"
  by (cases "summarize_all s m1 cs") (auto split: sum.splits)

lemma fst_try_block:
  "fst (try_block s m c) =
     (case fst (summarize_all s m (chunks_of c)) of
        Inl e \<Rightarrow> if is_Exception e then Inr (jsonify [(u ''error'', JStr (str_exn e))] 500) else Inl e
      | Inr ss \<Rightarrow>
          Inr (jsonify [(u ''summary'', JStr (join (u '' '') ss)),
                        (u ''word_count'', JInt (int (length (split_ws c)))),
                        (u ''line_count'', JInt (int (length (split_sep c 10))))] 200))"
  by (cases "summarize_all s m (chunks_of c)") (auto simp: try_block_cases split: sum.splits)

lemma invocations_Inl_mem:
  "(chunk, Inl e) \<in> set (invocations s m cs) \<Longrightarrow> fst (summarize_all s m cs) = Inl e"
proof (induction cs arbitrary: m)
  case Nil
  then show ?case by simp
next
  case (Cons c cs)
  obtain r m1 where c1: "s m c 130 30 False = (r, m1)" by (cases "s m c 130 30 False")
  show ?case
  proof (cases r)
    case (Inl e1)
    with c1 Cons.prems show ?thesis by simp
  next
    case (Inr t)
    with c1 Cons.prems have "(chunk, Inl e) \<in> set (invocations s m1 cs)" by simp
    then have "fst (summarize_all s m1 cs) = Inl e" by (rule Cons.IH)
    with fst_summarize_all_Cons [of s m c t m1 cs] c1 Inr show ?thesis by simp
  qed
qed

lemma invocations_all_ok:
  assumes "\<forall>call\<in>set (invocations s m cs). \<exists>t. snd call = Inr t"
  shows "\<exists>ss. fst (summarize_all s m cs) = Inr ss"
proof (cases "fst (summarize_all s m cs)")
  case (Inl e)
  then have "summarize_all s m cs = (Inl e, snd (summarize_all s m cs))"
    by (metis prod.collapse)
  from invocations_raise [OF this] obtain k ss where
    "invocations s m cs = zip (take k cs) (map Inr ss) @ [(cs ! k, Inl e)]" by blast
  then have "(cs ! k, Inl e) \<in> set (invocations s m cs)" by simp
  with assms show ?thesis by fastforce
next
  case (Inr ss)
  then show ?thesis by blast
qed

lemma analyze_recording_idle:
  assumes "\<not> (\<exists>kvs c. data = JObj kvs \<and> map_of kvs (u ''content'') = Some (JStr c) \<and> strip c \<noteq> [])"
  shows "snd (analyze (recording s) (m, calls) data) = (m, calls) \<and>
         (\<forall>r. fst (analyze (recording s) (m, calls) data) = Inr r \<longrightarrow> status r = 400)"
proof (cases "\<exists>kvs. data = JObj kvs")
  case False
  then show ?thesis by (simp add: analyze_not_dict)
next
  case True
  then obtain kvs where d: "data = JObj kvs" by blast
  with assms have "\<forall>c. map_of kvs (u ''content'') = Some (JStr c) \<longrightarrow> strip c = []" by blast
  then show ?thesis unfolding d
    by (auto simp: analyze_dict status_jsonify split: option.splits json.splits)
qed

lemma analyze_recording_busy:
  assumes "data = JObj kvs" "map_of kvs (u ''content'') = Some (JStr c)" "strip c \<noteq> []"
  shows "analyze (recording s) (m, calls) data =
           (fst (try_block s m c), (snd (try_block s m c), calls @ invocations s m (chunks_of c)))"
    and "analyze s m data = try_block s m c"
  using assms by (simp_all add: analyze_dict try_block_recording)

lemma chunks_of_bounds:
  assumes "x \<in> set (chunks_of c)"
  shows "x \<noteq> [] \<and> length x \<le> 1000"
proof -
  from assms obtain k where k: "k < (length c + 999) div 1000" "x = take 1000 (drop (1000 * k) c)"
    by (auto simp: chunks_of_conv)
  from k(1) have "1000 * k < length c" by arith
  with k(2) show ?thesis by simp
qed

lemma chunks_of_nonempty: "c \<noteq> [] \<Longrightarrow> chunks_of c \<noteq> []"
proof -
  assume "c \<noteq> []"
  then have "0 < length c" by simp
  then have "0 < (length c + 999) div 1000" by arith
  then have "length (chunks_of c) \<noteq> 0" by (simp add: length_chunks_of)
  then show ?thesis by auto
qed

lemma strip_nonempty: "strip c \<noteq> [] \<Longrightarrow> c \<noteq> []"
  by (auto simp: strip_def)

lemma join_space_empty: "join [x] ss = [] \<longleftrightarrow> ss = [] \<or> ss = [[]]"
  by (induction "[x]" ss rule: join.induct) auto

lemma summarize_all_deterministic:
  "deterministic s \<Longrightarrow> fst (summarize_all s m cs) = fst (summarize_all s m' cs)"
proof (induction cs arbitrary: m m')
  case Nil
  then show ?case by simp
next
  case (Cons c cs)
  obtain r m1 where c1: "s m c 130 30 False = (r, m1)" by (cases "s m c 130 30 False")
  obtain r' m1' where c2: "s m' c 130 30 False = (r', m1')" by (cases "s m' c 130 30 False")
  from Cons.prems have "fst (s m c 130 30 False) = fst (s m' c 130 30 False)"
    unfolding deterministic_def by blast
  with c1 c2 have rr: "r' = r" by simp
  show ?case
  proof (cases r)
    case (Inl e)
    with c1 c2 rr show ?thesis by simp
  next
    case (Inr t)
    have "fst (summarize_all s m1 cs) = fst (summarize_all s m1' cs)"
      using Cons.prems by (rule Cons.IH)
    with fst_summarize_all_Cons [of s m c t m1 cs] fst_summarize_all_Cons [of s m' c t m1' cs]
      c1 c2 rr Inr
    show ?thesis by simp
  qed
qed

lemma try_block_deterministic:
  "deterministic s \<Longrightarrow> fst (try_block s m c) = fst (try_block s m' c)"
  using summarize_all_deterministic [of s m "chunks_of c" m']
  by (simp add: fst_try_block)

lemma analyze_deterministic:
  "deterministic s \<Longrightarrow> fst (analyze s m data) = fst (analyze s m' data)"
proof (cases "\<exists>kvs. data = JObj kvs")
  case False
  then show ?thesis by (simp add: analyze_not_dict)
next
  case True
  assume det: "deterministic s"
  from True obtain kvs where d: "data = JObj kvs" by blast
  show ?thesis unfolding d using try_block_deterministic [OF det]
    by (simp add: analyze_dict split: option.splits json.splits)
qed

lemma u_space: "u '' '' = [32]"
  by (simp add: u_def)

text \<open>
  What a request run with a recording summarizer shows: if a call was recorded, or the
  response is not the 400 one, the content was a string with a code point that is not
  white space, and the recorded calls are those of the comprehension over its chunks.
\<close>

lemma recorded_run:
  assumes "analyze (recording s) (m, []) data = (out, (m', calls))"
    and "calls \<noteq> [] \<or> (\<exists>r. out = Inr r \<and> status r \<noteq> 400)"
  shows "\<exists>kvs c. data = JObj kvs \<and> map_of kvs (u ''content'') = Some (JStr c) \<and> strip c \<noteq> [] \<and>
           out = fst (try_block s m c) \<and> m' = snd (try_block s m c) \<and>
           calls = invocations s m (chunks_of c) \<and> analyze s m data = (out, m')"
proof (cases "\<exists>kvs c. data = JObj kvs \<and> map_of kvs (u ''content'') = Some (JStr c) \<and> strip c \<noteq> []")
  case False
  from analyze_recording_idle [OF False, of s m "[]"] assms show ?thesis by auto
next
  case True
  then obtain kvs c where
    d: "data = JObj kvs" "map_of kvs (u ''content'') = Some (JStr c)" "strip c \<noteq> []"
    by blast
  from analyze_recording_busy(1) [OF d, of s m "[]"] analyze_recording_busy(2) [OF d, of s m]
    assms(1)
  have "out = fst (try_block s m c)" "m' = snd (try_block s m c)"
       "calls = invocations s m (chunks_of c)" "analyze s m data = (out, m')"
    by simp_all
  with d show ?thesis by blast
qed

text \<open>
  An exception of the summarizer that is no instance of \<open>Exception\<close> is not caught by the
  \<open>except\<close> clause and leaves the handler.
\<close>

lemma non_exception_passes:
  assumes "analyze (recording summarizer) (m, []) data = (out, (m', calls))"
    and "(chunk, Inl e) \<in> set calls"
    and "\<not> is_Exception e"
  shows "out = Inl e"
proof -
  from assms(2) have "calls \<noteq> []" by auto
  with recorded_run [OF assms(1)] obtain kvs c where
    r: "data = JObj kvs" "out = fst (try_block summarizer m c)"
       "calls = invocations summarizer m (chunks_of c)"
    by blast
  from assms(2) r(3) have "fst (summarize_all summarizer m (chunks_of c)) = Inl e"
    by (auto dest: invocations_Inl_mem)
  with r(2) assms(3) show ?thesis by (simp add: fst_try_block)
qed

text \<open>Requests run with the summarizers \<open>echo\<close> and \<open>failing\<close>.\<close>

lemma failing_hello:
  "analyze (recording failing) (0, []) (request (u ''hello world'')) =
     (Inr \<lparr>status = 500, body = JObj [(u ''error'', JStr (u ''out of memory''))]\<rparr>,
      (1, [(u ''hello world'', Inl (OtherException (u ''out of memory'')))]))"
  by (simp add: request_def analyze_dict try_block_cases chunks_of_conv jsonify_def failing_def
        recording_def strip_def isspace_def u_def)



lemma echo_hello:
  "analyze echo 0 (request (u ''hello world'')) =
     (Inr \<lparr>status = 200,
            body = JObj [(u ''summary'', JStr (u ''hel'')), (u ''word_count'', JInt 2),
                         (u ''line_count'', JInt 1)]\<rparr>, 1)"
  by (simp add: request_def analyze_dict try_block_cases chunks_of_conv jsonify_def echo_def
        strip_def isspace_def split_ws_def split_sep_def u_def)

text \<open>A request of two chunks, 1000 times \<open>a\<close> and then \<open>b\<close>, run with \<open>echo\<close>.\<close>

lemma split_ws_from_no_space:
  "\<forall>x\<in>set s. \<not> isspace x \<Longrightarrow>
   split_ws_from cur s = (if cur @ s = [] then [] else [cur @ s])"
  by (induction s arbitrary: cur) auto

lemma echo_two:
  "analyze (recording echo) (0, []) (request (replicate 1000 97 @ [98])) =
     (Inr \<lparr>status = 200,
            body = JObj [(u ''summary'', JStr [97, 97, 97, 32, 98]), (u ''word_count'', JInt 1),
                         (u ''line_count'', JInt 1)]\<rparr>,
      (2, [(replicate 1000 97, Inr [97, 97, 97]), ([98], Inr [98])]))"
proof -
  let ?c = "replicate 1000 97 @ [98::nat]"
  have ns: "\<forall>x\<in>set ?c. \<not> isspace x" by (simp add: isspace_def)
  have st: "strip ?c \<noteq> []" using ns by (simp add: strip_empty_iff)
  have wc: "split_ws ?c = [?c]" using ns by (simp add: split_ws_def split_ws_from_no_space)
  have lc: "split_sep ?c 10 = [?c]" by (simp add: split_sep_def split_sep_from_absent)
  have ch: "chunks_of ?c = [replicate 1000 97, [98]]"
    by (simp add: chunks_of_conv upt_conv_Cons)
  have r3: "\<And>x::nat. replicate 3 x = [x, x, x]" by (simp add: numeral_3_eq_3)
  have t3: "take 3 (replicate 1000 (97::nat)) = [97, 97, 97]" by (simp add: r3)
  have sa: "summarize_all (recording echo) (0, []) [replicate 1000 97, [98]] =
              (Inr [[97, 97, 97], [98]],
               (2, [(replicate 1000 97, Inr [97, 97, 97]), ([98], Inr [98])]))"
    by (simp add: recording_def echo_def r3)
  have tb: "try_block (recording echo) (0, []) ?c =
              (Inr (jsonify [(u ''summary'', JStr [97, 97, 97, 32, 98]), (u ''word_count'', JInt 1),
                             (u ''line_count'', JInt 1)] 200),
               (2, [(replicate 1000 97, Inr [97, 97, 97]), ([98], Inr [98])]))"
    unfolding try_block_cases ch sa wc lc u_space by simp
  have ex: "map_of [(u ''content'', JStr ?c)] (u ''content'') = Some (JStr ?c)" by simp
  show ?thesis
    unfolding request_def analyze_dict ex using st tb by (simp add: jsonify_def)
qed

section \<open>The properties\<close>

text \<open>
  C1. A content of length \<open>L\<close> is cut into exactly \<open>\<lceil>L / 1000\<rceil>\<close> chunks; chunk \<open>k\<close> holds
  the code points at the positions from \<open>1000 k\<close> up to, not including, \<open>1000 k + 1000\<close>
  (cut at \<open>L\<close>, so the last chunk may be shorter); the chunks concatenated in order are
  the content.
\<close>

theorem chunks_partition:
  "int (length (chunks_of content)) = \<lceil>real (length content) / 1000\<rceil> \<and>
   (\<forall>k<length (chunks_of content).
      chunks_of content ! k =
        map ((!) content) [1000 * k..<min (1000 * k + 1000) (length content)]) \<and>
   concat (chunks_of content) = content"
  by (simp add: length_chunks_of ceiling_1000 [symmetric] nth_chunks_of concat_chunks_of)

theorem chunks_partition_witness:
  "1 < length (chunks_of (replicate 1001 97)) \<and> chunks_of (replicate 1001 97) ! 1 = [97]"
proof -
  have l: "length (chunks_of (replicate 1001 (97::nat))) = 2"
    by (simp add: length_chunks_of)
  from chunks_partition [of "replicate 1001 97"]
  have "\<forall>k<length (chunks_of (replicate 1001 (97::nat))).
          chunks_of (replicate 1001 97) ! k =
            map ((!) (replicate 1001 97)) [1000 * k..<min (1000 * k + 1000) (length (replicate 1001 (97::nat)))]"
    by blast
  with l have "chunks_of (replicate 1001 (97::nat)) ! 1 =
      map ((!) (replicate 1001 97)) [1000 * 1..<min (1000 * 1 + 1000) (length (replicate 1001 (97::nat)))]"
    by simp
  then show ?thesis using l by (simp add: upt_conv_Cons)
qed


text \<open>
  C2. When the request has no \<open>content\<close> field (the default is the empty string), or its
  content stripped of leading and trailing white space is empty, that is, consists of
  white space only, whatever its length, the handler answers 400 with the body
  \<open>{"error": "Empty content"}\<close>; the state of the summarizer is the one before the request
  and a recording summarizer has recorded no call.
\<close>

theorem empty_content_400:
  assumes "data = JObj kvs"
    and "map_of kvs (u ''content'') = None \<or>
         (\<exists>c. map_of kvs (u ''content'') = Some (JStr c) \<and>
              (strip c = [] \<or> (\<forall>x\<in>set c. isspace x)))"
  shows "analyze summarizer m data =
           (Inr \<lparr>status = 400, body = JObj [(u ''error'', JStr (u ''Empty content''))]\<rparr>, m) \<and>
         snd (analyze (recording summarizer) (m, calls) data) = (m, calls)"
proof -
  have "analyze summarizer m data =
          (Inr \<lparr>status = 400, body = JObj [(u ''error'', JStr (u ''Empty content''))]\<rparr>, m)"
    using assms by (auto simp: analyze_dict jsonify_def strip_empty_iff)
  moreover have "analyze (recording summarizer) (m, calls) data =
          (Inr \<lparr>status = 400, body = JObj [(u ''error'', JStr (u ''Empty content''))]\<rparr>, (m, calls))"
    using assms by (auto simp: analyze_dict jsonify_def strip_empty_iff)
  ultimately show ?thesis by simp
qed

theorem empty_content_400_witness:
  "strip [32, 9, 10, 12288] = [] \<and>
   analyze echo 0 (request [32, 9, 10, 12288]) =
     (Inr \<lparr>status = 400, body = JObj [(u ''error'', JStr (u ''Empty content''))]\<rparr>, 0) \<and>
   analyze echo 0 (JObj []) =
     (Inr \<lparr>status = 400, body = JObj [(u ''error'', JStr (u ''Empty content''))]\<rparr>, 0) \<and>
   snd (analyze (recording echo) (0, []) (request [32, 9, 10, 12288])) = (0, [])"
proof -
  have s: "strip [32, 9, 10, 12288] = []" by (simp add: strip_def isspace_def)
  have h: "map_of [(u ''content'', JStr [32, 9, 10, 12288])] (u ''content'') = None \<or>
           (\<exists>c. map_of [(u ''content'', JStr [32, 9, 10, 12288])] (u ''content'') = Some (JStr c) \<and>
                (strip c = [] \<or> (\<forall>x\<in>set c. isspace x)))"
    using s by simp
  have h0: "map_of [] (u ''content'') = None \<or>
           (\<exists>c. map_of ([]::(pystr \<times> json) list) (u ''content'') = Some (JStr c) \<and>
                (strip c = [] \<or> (\<forall>x\<in>set c. isspace x)))"
    by simp
  show ?thesis
    using s empty_content_400 [OF request_def h, of echo 0 "[]"]
      empty_content_400 [OF refl h0, of echo 0 "[]"]
    by simp
qed

text \<open>
  C9. When the \<open>content\<close> field is present and is not a string, \<open>content.strip()\<close> raises
  an \<open>AttributeError\<close> before the \<open>try\<close> statement is entered: the exception leaves the
  handler, which returns no response, neither the 400 body nor the 500 body.
\<close>

theorem non_string_content_raises:
  assumes "data = JObj kvs"
    and "map_of kvs (u ''content'') = Some v"
    and "\<forall>c. v \<noteq> JStr c"
  shows "analyze summarizer m data = (Inl (no_attribute v ''strip''), m) \<and>
         is_Exception (no_attribute v ''strip'') \<and>
         (\<forall>r. fst (analyze summarizer m data) \<noteq> Inr r)"
  using assms by (cases v) (simp_all add: analyze_dict no_attribute_def)

theorem non_string_content_raises_witness:
  "analyze echo 0 (JObj [(u ''content'', JInt 3)]) = (Inl (no_attribute (JInt 3) ''strip''), 0) \<and>
   analyze echo 0 (JObj [(u ''content'', JNull)]) = (Inl (no_attribute JNull ''strip''), 0) \<and>
   str_exn (no_attribute JNull ''strip'') =
     [39] @ u ''NoneType'' @ [39] @ u '' object has no attribute '' @ [39] @ u ''strip'' @ [39]"
proof -
  have a: "map_of [(u ''content'', JInt 3)] (u ''content'') = Some (JInt 3)" by simp
  have b: "map_of [(u ''content'', JNull)] (u ''content'') = Some JNull" by simp
  have na: "\<forall>c. JInt 3 \<noteq> JStr c" by simp
  have nb: "\<forall>c. JNull \<noteq> JStr c" by simp
  show ?thesis
    using non_string_content_raises [OF refl a na, of echo 0]
      non_string_content_raises [OF refl b nb, of echo 0]
    by (simp add: no_attribute_def)
qed

text \<open>
  C8. With a deterministic summarizer the response depends on the request only: the same
  request gives the same response from any two states of the summarizer, in particular
  from the state that a first run of the same request has left. The handler has no state
  of its own: the only state it is given and returns is the summarizer's.
\<close>

theorem deterministic_responses:
  assumes "deterministic summarizer"
  shows "fst (analyze summarizer m data) = fst (analyze summarizer m' data) \<and>
         fst (analyze summarizer (snd (analyze summarizer m data)) data) =
           fst (analyze summarizer m data)"
  using analyze_deterministic [OF assms] by metis

theorem deterministic_responses_witness:
  "deterministic echo \<and>
   fst (analyze echo 0 (request (u ''hi''))) = fst (analyze echo 7 (request (u ''hi'')))"
proof -
  have d: "deterministic echo" by (simp add: deterministic_def echo_def)
  from deterministic_responses [OF d, of 0 "request (u ''hi'')" 7] d show ?thesis by simp
qed

text \<open>
  C4. On a 200 response, \<open>word_count\<close> is the length of \<open>content.split()\<close> for the content
  of the request, not of the summary, and that is the number of maximal runs of non-space
  code points of the content. For \<open>"hello world"\<close> it is 2, for \<open>"  a  "\<close> it is 1.
\<close>

theorem word_count_tokens:
  "(analyze summarizer m data = (Inr r, m') \<and> status r = 200 \<longrightarrow>
      (\<exists>kvs c. data = JObj kvs \<and> map_of kvs (u ''content'') = Some (JStr c) \<and>
         field r (u ''word_count'') = Some (JInt (int (length (split_ws c)))) \<and>
         length (split_ws c) = token_count c)) \<and>
   length (split_ws (u ''hello world'')) = 2 \<and>
   length (split_ws (u ''  a  '')) = 1"
proof (intro conjI impI)
  assume a: "analyze summarizer m data = (Inr r, m') \<and> status r = 200"
  then obtain kvs c ss where
    "data = JObj kvs" "map_of kvs (u ''content'') = Some (JStr c)"
    "r = jsonify [(u ''summary'', JStr (join (u '' '') ss)),
                  (u ''word_count'', JInt (int (length (split_ws c)))),
                  (u ''line_count'', JInt (int (length (split_sep c 10))))] 200"
    using analyze_200 [of summarizer m data r m'] by blast
  then show "\<exists>kvs c. data = JObj kvs \<and> map_of kvs (u ''content'') = Some (JStr c) \<and>
         field r (u ''word_count'') = Some (JInt (int (length (split_ws c)))) \<and>
         length (split_ws c) = token_count c"
    by (simp add: field_jsonify map_of_fields length_split_ws)
next
  show "length (split_ws (u ''hello world'')) = 2"
    by (simp add: split_ws_def u_def isspace_def)
next
  show "length (split_ws (u ''  a  '')) = 1"
    by (simp add: split_ws_def u_def isspace_def)
qed

theorem word_count_tokens_witness:
  "analyze echo 0 (request (u ''hello world'')) =
     (Inr \<lparr>status = 200,
            body = JObj [(u ''summary'', JStr (u ''hel'')), (u ''word_count'', JInt 2),
                         (u ''line_count'', JInt 1)]\<rparr>, 1) \<and>
   field \<lparr>status = 200,
          body = JObj [(u ''summary'', JStr (u ''hel'')), (u ''word_count'', JInt 2),
                       (u ''line_count'', JInt 1)]\<rparr> (u ''word_count'') = Some (JInt 2) \<and>
   token_count (u ''hello world'') = 2"
proof -
  let ?r = "\<lparr>status = 200,
             body = JObj [(u ''summary'', JStr (u ''hel'')), (u ''word_count'', JInt 2),
                          (u ''line_count'', JInt 1)]\<rparr>"
  have run: "analyze echo 0 (request (u ''hello world'')) = (Inr ?r, 1)" by (rule echo_hello)
  have st: "status ?r = 200" by simp
  from word_count_tokens [of echo 0 "request (u ''hello world'')" ?r 1] run st
  obtain kvs c where
    kc: "request (u ''hello world'') = JObj kvs" "map_of kvs (u ''content'') = Some (JStr c)"
        "field ?r (u ''word_count'') = Some (JInt (int (length (split_ws c))))"
        "length (split_ws c) = token_count c"
    by blast
  from kc(1,2) have c: "c = u ''hello world''" by (auto simp: request_def)
  from word_count_tokens [of echo 0 "request (u ''hello world'')" ?r 1]
  have two: "length (split_ws (u ''hello world'')) = 2" by blast
  from kc(3,4) c two run show ?thesis by simp
qed

text \<open>
  C5. On a 200 response, \<open>line_count\<close> is the number of segments of the content of the
  request split at the newline (code point 10): one more than the number of newlines. A
  string without newline is one segment; a newline at the end adds an empty last segment.
  The three examples are \<open>"a\nb\nc"\<close>, \<open>"a"\<close> and \<open>"a\n"\<close>, with 97, 98, 99 the letters.
\<close>

theorem line_count_segments:
  "(analyze summarizer m data = (Inr r, m') \<and> status r = 200 \<longrightarrow>
      (\<exists>kvs c. data = JObj kvs \<and> map_of kvs (u ''content'') = Some (JStr c) \<and>
         field r (u ''line_count'') = Some (JInt (int (length (split_sep c 10)))))) \<and>
   length (split_sep s 10) = Suc (count_list s 10) \<and>
   (10 \<notin> set s \<longrightarrow> split_sep s 10 = [s]) \<and>
   split_sep (s @ [10]) 10 = split_sep s 10 @ [[]] \<and>
   length (split_sep [97, 10, 98, 10, 99] 10) = 3 \<and>
   length (split_sep [97] 10) = 1 \<and>
   length (split_sep [97, 10] 10) = 2"
proof (intro conjI impI)
  assume a: "analyze summarizer m data = (Inr r, m') \<and> status r = 200"
  then obtain kvs c ss where
    "data = JObj kvs" "map_of kvs (u ''content'') = Some (JStr c)"
    "r = jsonify [(u ''summary'', JStr (join (u '' '') ss)),
                  (u ''word_count'', JInt (int (length (split_ws c)))),
                  (u ''line_count'', JInt (int (length (split_sep c 10))))] 200"
    using analyze_200 [of summarizer m data r m'] by blast
  then show "\<exists>kvs c. data = JObj kvs \<and> map_of kvs (u ''content'') = Some (JStr c) \<and>
         field r (u ''line_count'') = Some (JInt (int (length (split_sep c 10))))"
    by (simp add: field_jsonify map_of_fields)
next
  show "length (split_sep s 10) = Suc (count_list s 10)"
    by (simp add: split_sep_def length_split_sep_from)
next
  assume "10 \<notin> set s"
  then show "split_sep s 10 = [s]" by (simp add: split_sep_def split_sep_from_absent)
next
  show "split_sep (s @ [10]) 10 = split_sep s 10 @ [[]]"
    by (simp add: split_sep_def split_sep_from_trailing)
qed (simp_all add: split_sep_def)

theorem line_count_segments_witness:
  "analyze echo 0 (request (u ''hello world'')) =
     (Inr \<lparr>status = 200,
            body = JObj [(u ''summary'', JStr (u ''hel'')), (u ''word_count'', JInt 2),
                         (u ''line_count'', JInt 1)]\<rparr>, 1) \<and>
   10 \<notin> set (u ''hello world'') \<and>
   field \<lparr>status = 200,
          body = JObj [(u ''summary'', JStr (u ''hel'')), (u ''word_count'', JInt 2),
                       (u ''line_count'', JInt 1)]\<rparr> (u ''line_count'') =
     Some (JInt (int (length [u ''hello world''])))"
proof -
  let ?r = "\<lparr>status = 200,
             body = JObj [(u ''summary'', JStr (u ''hel'')), (u ''word_count'', JInt 2),
                          (u ''line_count'', JInt 1)]\<rparr>"
  have run: "analyze echo 0 (request (u ''hello world'')) = (Inr ?r, 1)" by (rule echo_hello)
  have st: "status ?r = 200" by simp
  have nl: "10 \<notin> set (u ''hello world'')" by (simp add: u_def)
  note t = line_count_segments [of echo 0 "request (u ''hello world'')" ?r 1 "u ''hello world''"]
  from t run st obtain kvs c where
    kc: "request (u ''hello world'') = JObj kvs" "map_of kvs (u ''content'') = Some (JStr c)"
        "field ?r (u ''line_count'') = Some (JInt (int (length (split_sep c 10))))"
    by blast
  from kc(1,2) have c: "c = u ''hello world''" by (auto simp: request_def)
  from t nl have "split_sep (u ''hello world'') 10 = [u ''hello world'']" by blast
  with kc(3) c run nl show ?thesis by simp
qed

text \<open>
  C3. If a call of the summarizer on some chunk raises an exception (an instance of
  \<open>Exception\<close>, the class the \<open>except\<close> clause names), the handler answers 500 with the
  body \<open>{"error": str(e)}\<close>: no 200 response and no \<open>summary\<close> field. The summarizer call
  is the only step between chunking and the assembly of the response that can fail in
  the model: slicing, joining and counting are total on strings.
\<close>

theorem summarizer_failure_500:
  assumes "analyze (recording summarizer) (m, []) data = (out, (m', calls))"
    and "(chunk, Inl e) \<in> set calls"
    and "is_Exception e"
  shows "out = Inr \<lparr>status = 500, body = JObj [(u ''error'', JStr (str_exn e))]\<rparr> \<and>
         analyze summarizer m data = (out, m') \<and>
         field \<lparr>status = 500, body = JObj [(u ''error'', JStr (str_exn e))]\<rparr> (u ''summary'') = None"
proof -
  from assms(2) have "calls \<noteq> []" by auto
  with recorded_run [OF assms(1)] obtain kvs c where
    r: "data = JObj kvs" "out = fst (try_block summarizer m c)"
       "calls = invocations summarizer m (chunks_of c)" "analyze summarizer m data = (out, m')"
    by blast
  from assms(2) r(3) have "fst (summarize_all summarizer m (chunks_of c)) = Inl e"
    by (auto dest: invocations_Inl_mem)
  with r(2) assms(3) have "out = Inr (jsonify [(u ''error'', JStr (str_exn e))] 500)"
    by (simp add: fst_try_block)
  moreover have "u ''summary'' \<noteq> u ''error''" by (simp add: u_def)
  ultimately show ?thesis using r(4) by (simp add: jsonify_def field_def)
qed

theorem summarizer_failure_500_witness:
  "analyze (recording failing) (0, []) (request (u ''hello world'')) =
     (Inr \<lparr>status = 500, body = JObj [(u ''error'', JStr (u ''out of memory''))]\<rparr>,
      (1, [(u ''hello world'', Inl (OtherException (u ''out of memory'')))])) \<and>
   is_Exception (OtherException (u ''out of memory'')) \<and>
   analyze failing 0 (request (u ''hello world'')) =
     (Inr \<lparr>status = 500, body = JObj [(u ''error'', JStr (u ''out of memory''))]\<rparr>, 1)"
proof -
  have mem: "(u ''hello world'', Inl (OtherException (u ''out of memory''))) \<in>
             set [(u ''hello world'', Inl (OtherException (u ''out of memory'')))]"
    by simp
  have ex: "is_Exception (OtherException (u ''out of memory''))" by simp
  from summarizer_failure_500 [OF failing_hello mem ex] failing_hello ex
  show ?thesis by simp
qed


text \<open>
  C6. On a 200 response the recorded calls of the summarizer are one per chunk, on the
  chunks in their order, each call made in the state the one before it has left; the
  \<open>summary\<close> field is the texts these calls returned, in that order, joined by one
  space (code point 32).
\<close>

theorem summary_joined_in_order:
  assumes "analyze (recording summarizer) (m, []) data = (Inr r, (m', calls))"
    and "status r = 200"
  shows "\<exists>kvs c ss. data = JObj kvs \<and> map_of kvs (u ''content'') = Some (JStr c) \<and>
           map fst calls = chunks_of c \<and> map snd calls = map Inr ss \<and>
           field r (u ''summary'') = Some (JStr (join [32] ss)) \<and>
           analyze summarizer m data = (Inr r, m')"
proof -
  from assms(2) have "calls \<noteq> [] \<or> (\<exists>r'. Inr r = (Inr r' :: pyexn + response) \<and> status r' \<noteq> 400)"
    by simp
  from recorded_run [OF assms(1) this] obtain kvs c where
    d: "data = JObj kvs" "map_of kvs (u ''content'') = Some (JStr c)"
       "Inr r = fst (try_block summarizer m c)" "m' = snd (try_block summarizer m c)"
       "calls = invocations summarizer m (chunks_of c)" "analyze summarizer m data = (Inr r, m')"
    by blast
  from d(3,4) have "try_block summarizer m c = (Inr r, m')" by (metis prod.collapse)
  from try_block_200 [OF this assms(2)] obtain ss where
    ss: "summarize_all summarizer m (chunks_of c) = (Inr ss, m')"
        "r = jsonify [(u ''summary'', JStr (join (u '' '') ss)),
                      (u ''word_count'', JInt (int (length (split_ws c)))),
                      (u ''line_count'', JInt (int (length (split_sep c 10))))] 200"
    by blast
  have len: "length ss = length (chunks_of c)" using ss(1) by (rule summarize_all_length)
  have calls: "calls = zip (chunks_of c) (map Inr ss)"
    using d(5) invocations_ok [OF ss(1)] by simp
  have "map fst calls = chunks_of c" "map snd calls = map Inr ss"
    using calls len by simp_all
  moreover have "field r (u ''summary'') = Some (JStr (join [32] ss))"
    using ss(2) by (simp add: field_jsonify u_space)
  ultimately show ?thesis using d(1,2,6) by blast
qed

theorem summary_joined_in_order_witness:
  "analyze (recording echo) (0, []) (request (replicate 1000 97 @ [98])) =
     (Inr \<lparr>status = 200,
            body = JObj [(u ''summary'', JStr [97, 97, 97, 32, 98]), (u ''word_count'', JInt 1),
                         (u ''line_count'', JInt 1)]\<rparr>,
      (2, [(replicate 1000 97, Inr [97, 97, 97]), ([98], Inr [98])])) \<and>
   chunks_of (replicate 1000 97 @ [98]) = [replicate 1000 97, [98]] \<and>
   join [32] [[97, 97, 97], [98]] = [97, 97, 97, 32, 98]"
proof -
  let ?r = "\<lparr>status = 200,
             body = JObj [(u ''summary'', JStr [97, 97, 97, 32, 98]), (u ''word_count'', JInt 1),
                          (u ''line_count'', JInt 1)]\<rparr>"
  have st: "status ?r = 200" by simp
  from summary_joined_in_order [OF echo_two st] obtain kvs c where
    k: "request (replicate 1000 97 @ [98]) = JObj kvs" "map_of kvs (u ''content'') = Some (JStr c)"
       "map fst [(replicate 1000 97, Inr [97, 97, 97] :: pyexn + pystr), ([98], Inr [98])] = chunks_of c"
    by blast
  from k(1,2) have "c = replicate 1000 97 @ [98]" by (auto simp: request_def)
  with k(3) have "chunks_of (replicate 1000 97 @ [98]) = [replicate 1000 97, [98]]" by simp
  with echo_two show ?thesis by simp
qed

text \<open>
  C10. On a 200 response \<open>word_count\<close> and \<open>line_count\<close> are at least 1, the summarizer
  has been called at least once, and every chunk it was called on is non-empty and has at
  most 1000 code points.
\<close>

theorem success_invariants:
  assumes "analyze (recording summarizer) (m, []) data = (Inr r, (m', calls))"
    and "status r = 200"
  shows "\<exists>n l. field r (u ''word_count'') = Some (JInt n) \<and> 1 \<le> n \<and>
           field r (u ''line_count'') = Some (JInt l) \<and> 1 \<le> l \<and>
           calls \<noteq> [] \<and> (\<forall>call\<in>set calls. fst call \<noteq> [] \<and> length (fst call) \<le> 1000)"
proof -
  from assms(2) have "calls \<noteq> [] \<or> (\<exists>r'. Inr r = (Inr r' :: pyexn + response) \<and> status r' \<noteq> 400)"
    by simp
  from recorded_run [OF assms(1) this] obtain kvs c where
    d: "data = JObj kvs" "strip c \<noteq> []"
       "Inr r = fst (try_block summarizer m c)" "m' = snd (try_block summarizer m c)"
       "calls = invocations summarizer m (chunks_of c)"
    by blast
  from d(3,4) have "try_block summarizer m c = (Inr r, m')" by (metis prod.collapse)
  from try_block_200 [OF this assms(2)] obtain ss where
    ss: "summarize_all summarizer m (chunks_of c) = (Inr ss, m')"
        "r = jsonify [(u ''summary'', JStr (join (u '' '') ss)),
                      (u ''word_count'', JInt (int (length (split_ws c)))),
                      (u ''line_count'', JInt (int (length (split_sep c 10))))] 200"
    by blast
  have len: "length ss = length (chunks_of c)" using ss(1) by (rule summarize_all_length)
  have calls: "calls = zip (chunks_of c) (map Inr ss)"
    using d(5) invocations_ok [OF ss(1)] by simp
  have ne: "chunks_of c \<noteq> []" by (rule chunks_of_nonempty [OF strip_nonempty [OF d(2)]])
  have "length calls = length (chunks_of c)" using calls len by simp
  with ne have c1: "calls \<noteq> []" by auto
  have c2: "\<forall>call\<in>set calls. fst call \<noteq> [] \<and> length (fst call) \<le> 1000"
  proof
    fix call assume mem: "call \<in> set calls"
    obtain a b where ab: "call = (a, b)" by (cases call)
    with mem have "(a, b) \<in> set (zip (chunks_of c) (map Inr ss))" unfolding calls by simp
    then have "a \<in> set (chunks_of c)" by (rule set_zip_leftD)
    then have "a \<noteq> [] \<and> length a \<le> 1000" by (rule chunks_of_bounds)
    with ab show "fst call \<noteq> [] \<and> length (fst call) \<le> 1000" by simp
  qed
  have "split_ws c \<noteq> []" using d(2) by (rule split_ws_nonempty)
  then have "0 < length (split_ws c)" by (cases "split_ws c") simp_all
  then have c3: "1 \<le> int (length (split_ws c))" by linarith
  have c4: "1 \<le> int (length (split_sep c 10))"
    by (simp add: split_sep_def length_split_sep_from)
  have c5: "field r (u ''word_count'') = Some (JInt (int (length (split_ws c))))"
    using ss(2) by (simp add: field_jsonify map_of_fields)
  have c6: "field r (u ''line_count'') = Some (JInt (int (length (split_sep c 10))))"
    using ss(2) by (simp add: field_jsonify map_of_fields)
  show ?thesis
    apply (rule exI [of _ "int (length (split_ws c))"])
    apply (rule exI [of _ "int (length (split_sep c 10))"])
    apply (intro conjI)
         apply (rule c5)
        apply (rule c3)
       apply (rule c6)
      apply (rule c4)
     apply (rule c1)
    apply (rule c2)
    done
qed

theorem success_invariants_witness:
  "analyze (recording echo) (0, []) (request (replicate 1000 97 @ [98])) =
     (Inr \<lparr>status = 200,
            body = JObj [(u ''summary'', JStr [97, 97, 97, 32, 98]), (u ''word_count'', JInt 1),
                         (u ''line_count'', JInt 1)]\<rparr>,
      (2, [(replicate 1000 97, Inr [97, 97, 97]), ([98], Inr [98])])) \<and>
   [(replicate 1000 (97::nat), Inr [97, 97, 97] :: pyexn + pystr), ([98], Inr [98])] \<noteq> [] \<and>
   [98::nat] \<noteq> [] \<and> length [98::nat] \<le> 1000"
proof -
  let ?r = "\<lparr>status = 200,
             body = JObj [(u ''summary'', JStr [97, 97, 97, 32, 98]), (u ''word_count'', JInt 1),
                          (u ''line_count'', JInt 1)]\<rparr>"
  let ?calls = "[(replicate 1000 (97::nat), Inr [97, 97, 97] :: pyexn + pystr), ([98], Inr [98])]"
  have st: "status ?r = 200" by simp
  from success_invariants [OF echo_two st]
  have ne: "?calls \<noteq> []"
    and all: "\<forall>call\<in>set ?calls. fst call \<noteq> [] \<and> length (fst call) \<le> 1000"
    by blast+
  have "([98::nat], Inr [98] :: pyexn + pystr) \<in> set ?calls" by simp
  with all have "fst ([98::nat], Inr [98] :: pyexn + pystr) \<noteq> [] \<and>
                 length (fst ([98::nat], Inr [98] :: pyexn + pystr)) \<le> 1000"
    by (rule bspec)
  then have b: "[98::nat] \<noteq> []" "length [98::nat] \<le> 1000" by simp_all
  show ?thesis by (intro conjI) (rule echo_two, rule ne, rule b(1), rule b(2))
qed

text \<open>
  C7. For the content \<open>"a"\<close> and a summarizer that returns the empty text, the one call
  succeeds and the response is 200 with all three fields, and the \<open>summary\<close> is empty: the
  handler passes on what the summarizer returns and asks nothing of its length.
\<close>

theorem summary_nonempty_counterexample:
  "strip (u ''a'') \<noteq> [] \<and>
   analyze (recording silent) (0, []) (request (u ''a'')) =
     (Inr \<lparr>status = 200,
            body = JObj [(u ''summary'', JStr []), (u ''word_count'', JInt 1),
                         (u ''line_count'', JInt 1)]\<rparr>,
      (1, [(u ''a'', Inr [])]))"
  by (simp add: request_def analyze_dict try_block_cases chunks_of_conv jsonify_def silent_def
        recording_def strip_def isspace_def split_ws_def split_sep_def u_def)

text \<open>
  C7, as the handler has it. For a content that is a string with a code point that is not
  white space, when no call of the summarizer raises, the response is 200 and its body has
  the three fields \<open>summary\<close>, \<open>word_count\<close> and \<open>line_count\<close>. The \<open>summary\<close> is non-empty
  exactly when the content is longer than 1000 code points, so that a separating space is
  joined in, or some call returned a non-empty text.
\<close>

theorem success_response_fields:
  assumes "data = JObj kvs"
    and "map_of kvs (u ''content'') = Some (JStr c)"
    and "strip c \<noteq> []"
    and "analyze (recording summarizer) (m, []) data = (out, (m', calls))"
    and "\<forall>call\<in>set calls. \<exists>t. snd call = Inr t"
  shows "\<exists>s. out = Inr \<lparr>status = 200,
                       body = JObj [(u ''summary'', JStr s),
                                    (u ''word_count'', JInt (int (length (split_ws c)))),
                                    (u ''line_count'', JInt (int (length (split_sep c 10))))]\<rparr> \<and>
             analyze summarizer m data = (out, m') \<and>
             (s \<noteq> [] \<longleftrightarrow> 1000 < length c \<or> (\<exists>call\<in>set calls. snd call \<noteq> Inr []))"
proof -
  from analyze_recording_busy(1) [OF assms(1-3), of summarizer m "[]"]
    analyze_recording_busy(2) [OF assms(1-3), of summarizer m] assms(4)
  have r: "out = fst (try_block summarizer m c)" "m' = snd (try_block summarizer m c)"
          "calls = invocations summarizer m (chunks_of c)" "analyze summarizer m data = (out, m')"
    by simp_all
  from assms(5) r(3) obtain ss where ss: "fst (summarize_all summarizer m (chunks_of c)) = Inr ss"
    using invocations_all_ok [of summarizer m "chunks_of c"] by blast
  then have sa: "summarize_all summarizer m (chunks_of c) =
                   (Inr ss, snd (summarize_all summarizer m (chunks_of c)))"
    by (metis prod.collapse)
  have len: "length ss = (length c + 999) div 1000"
    using summarize_all_length [OF sa] by (simp add: length_chunks_of)
  have calls: "calls = zip (chunks_of c) (map Inr ss)"
    using r(3) invocations_ok [OF sa] by simp
  have snds: "snd ` set calls = Inr ` set ss"
  proof -
    have "length (chunks_of c) = length (map Inr ss :: (pyexn + pystr) list)"
      using summarize_all_length [OF sa] by simp
    then have "map snd (zip (chunks_of c) (map Inr ss :: (pyexn + pystr) list)) = map Inr ss"
      by (rule map_snd_zip)
    then have "set (map snd calls) = set (map Inr ss :: (pyexn + pystr) list)"
      unfolding calls by simp
    then show ?thesis by simp
  qed
  have out: "out = Inr \<lparr>status = 200,
                       body = JObj [(u ''summary'', JStr (join [32] ss)),
                                    (u ''word_count'', JInt (int (length (split_ws c)))),
                                    (u ''line_count'', JInt (int (length (split_sep c 10))))]\<rparr>"
    using r(1) ss by (simp add: fst_try_block jsonify_def u_space)
  have c0: "c \<noteq> []" by (rule strip_nonempty [OF assms(3)])
  have iff: "join [32] ss \<noteq> [] \<longleftrightarrow> 1000 < length c \<or> (\<exists>call\<in>set calls. snd call \<noteq> Inr [])"
  proof
    assume ne: "join [32] ss \<noteq> []"
    show "1000 < length c \<or> (\<exists>call\<in>set calls. snd call \<noteq> Inr [])"
    proof (cases "1000 < length c")
      case True
      then show ?thesis by simp
    next
      case False
      with c0 have "0 < length c" "length c \<le> 1000" by simp_all
      then have "(length c + 999) div 1000 = 1" by arith
      with len have "length ss = 1" by simp
      then obtain t where t: "ss = [t]" by (cases ss) auto
      with ne have "t \<noteq> []" by simp
      moreover from t snds have "Inr t \<in> snd ` set calls" by simp
      then obtain call where "call \<in> set calls" "snd call = Inr t" by force
      ultimately have "\<exists>call\<in>set calls. snd call \<noteq> Inr []" by force
      then show ?thesis by blast
    qed
  next
    assume "1000 < length c \<or> (\<exists>call\<in>set calls. snd call \<noteq> Inr [])"
    then show "join [32] ss \<noteq> []"
    proof
      assume "1000 < length c"
      then have "2 \<le> (length c + 999) div 1000" by arith
      with len have "2 \<le> length ss" by simp
      then have "ss \<noteq> [] \<and> ss \<noteq> [[]]" by auto
      then show ?thesis by (simp add: join_space_empty)
    next
      assume "\<exists>call\<in>set calls. snd call \<noteq> Inr []"
      then obtain call where "call \<in> set calls" "snd call \<noteq> Inr []" by blast
      then have "\<exists>t\<in>set ss. t \<noteq> []" using snds by (metis imageE imageI)
      then have "ss \<noteq> [] \<and> ss \<noteq> [[]]" by auto
      then show ?thesis by (simp add: join_space_empty)
    qed
  qed
  from out r(4) iff show ?thesis by blast
qed

theorem success_response_fields_witness:
  "strip (replicate 1000 97 @ [98]) \<noteq> [] \<and>
   analyze (recording echo) (0, []) (request (replicate 1000 97 @ [98])) =
     (Inr \<lparr>status = 200,
            body = JObj [(u ''summary'', JStr [97, 97, 97, 32, 98]), (u ''word_count'', JInt 1),
                         (u ''line_count'', JInt 1)]\<rparr>,
      (2, [(replicate 1000 97, Inr [97, 97, 97]), ([98], Inr [98])])) \<and>
   analyze echo 0 (request (replicate 1000 97 @ [98])) =
     (Inr \<lparr>status = 200,
            body = JObj [(u ''summary'', JStr [97, 97, 97, 32, 98]), (u ''word_count'', JInt 1),
                         (u ''line_count'', JInt 1)]\<rparr>, 2)"
proof -
  let ?c = "replicate 1000 97 @ [98::nat]"
  have "\<forall>x\<in>set ?c. \<not> isspace x" by (simp add: isspace_def)
  then have st: "strip ?c \<noteq> []" by (simp add: strip_empty_iff)
  have ex: "map_of [(u ''content'', JStr ?c)] (u ''content'') = Some (JStr ?c)" by simp
  have ok: "\<forall>call\<in>set [(replicate 1000 (97::nat), Inr [97, 97, 97] :: pyexn + pystr), ([98], Inr [98])].
              \<exists>t. snd call = Inr t"
    by simp
  from success_response_fields [OF request_def ex st echo_two ok] st echo_two
  show ?thesis by auto
qed

end
